theory Spec2Isabelle
  imports Complex_Main
begin

section \<open>Conventions of the embedding\<close>

text \<open>
  The program is one Python module, \<^verbatim>\<open>MosabMohamed.py\<close>. Python's unbounded integers are
  \<^typ>\<open>int\<close>, its lists are HOL lists, and a chord (a three-element list of integers) is a
  triple. Python's floats are idealised as \<^typ>\<open>real\<close>: every float operation is taken
  exactly, with no rounding. In \<^verbatim>\<open>midi_number_to_note\<close> the rounded quotient has the same
  integer part as the exact one for every pitch below \<open>2^50\<close>; MIDI pitches are 0..127.

  An exception is a value \<open>Inl e\<close> of the result type; a function none of whose paths raises has
  a plain result type. Random draws are explicit parameters, so a statement quantified over the
  parameter speaks about every outcome of the draw.
\<close>

datatype error = IndexError | ZeroDivisionError | InvalidNoteName

text \<open>Python's \<^verbatim>\<open>xs[i]\<close>: an index from \<open>0\<close> up to the length reads from the front, one
  from \<open>-1\<close> down to minus the length reads from the back, and any other raises
  \<^verbatim>\<open>IndexError\<close>.\<close>

definition py_index :: "'a list \<Rightarrow> int \<Rightarrow> error + 'a" where
  "py_index xs i =
     (if 0 \<le> i \<and> i < int (length xs) then Inr (xs ! nat i)
      else if i < 0 \<and> - int (length xs) \<le> i then Inr (xs ! nat (int (length xs) + i))
      else Inl IndexError)"


section \<open>Pitch codec\<close>

definition quarter_time :: int where
  "quarter_time = 384"

definition notes_list :: "string list" where
  \<comment> \<open>the module constant \<^verbatim>\<open>notes\<close>\<close>
  "notes_list = [''C'', ''C#'', ''D'', ''D#'', ''E'', ''F'', ''F#'', ''G'', ''G#'', ''A'', ''A#'', ''B'']"

text \<open>The search loop of \<^verbatim>\<open>note_to_midi_number\<close>: \<^verbatim>\<open>note_number\<close> starts at 0 and is
  overwritten at the first index whose name matches, where the loop breaks. No path raises.\<close>

fun note_search :: "string \<Rightarrow> nat list \<Rightarrow> int \<Rightarrow> int" where
  "note_search note [] note_number = note_number"
| "note_search note (i # is) note_number =
     (if note = notes_list ! i then int i else note_search note is note_number)"

definition note_to_midi_number :: "string \<Rightarrow> int \<Rightarrow> int" where
  "note_to_midi_number note octave = (octave * 12) + note_search note [0..<length notes_list] 0"



section \<open>Chord catalog\<close>

type_synonym chord = "int \<times> int \<times> int"
type_synonym individual = "chord list"

definition tonic_of :: "chord \<Rightarrow> int" where
  \<comment> \<open>\<^verbatim>\<open>x[0]\<close>\<close>
  "tonic_of c = fst c"

definition mediant_of :: "chord \<Rightarrow> int" where
  \<comment> \<open>\<^verbatim>\<open>x[1]\<close>\<close>
  "mediant_of c = fst (snd c)"

definition dominant_of :: "chord \<Rightarrow> int" where
  \<comment> \<open>\<^verbatim>\<open>x[2]\<close>\<close>
  "dominant_of c = snd (snd c)"

definition major_triad :: "int \<Rightarrow> chord" where
  "major_triad root_midi = (root_midi, root_midi + 4, root_midi + 7)"

definition minor_triad :: "int \<Rightarrow> chord" where
  "minor_triad root_midi = (root_midi, root_midi + 3, root_midi + 7)"

definition first_inverted_major :: "int \<Rightarrow> chord" where
  "first_inverted_major root_midi = (root_midi + 12, root_midi + 4, root_midi + 7)"

definition first_inverted_minor :: "int \<Rightarrow> chord" where
  "first_inverted_minor root_midi = (root_midi + 12, root_midi + 3, root_midi + 7)"

definition second_inverted_major :: "int \<Rightarrow> chord" where
  "second_inverted_major root_midi = (root_midi + 12, root_midi + 16, root_midi + 7)"

definition second_inverted_minor :: "int \<Rightarrow> chord" where
  "second_inverted_minor root_midi = (root_midi + 12, root_midi + 15, root_midi + 7)"

definition diminished :: "int \<Rightarrow> chord" where
  "diminished root_midi = (root_midi, root_midi + 3, root_midi + 6)"

definition sus2 :: "int \<Rightarrow> chord" where
  "sus2 root_midi = (root_midi, root_midi + 2, root_midi + 7)"

definition sus4 :: "int \<Rightarrow> chord" where
  "sus4 root_midi = (root_midi, root_midi + 5, root_midi + 7)"

definition rest :: chord where
  "rest = (-1, -1, -1)"

section \<open>Melody quantizer\<close>

text \<open>A melody event is \<^verbatim>\<open>[note, time]\<close>; note 0 marks a gap.\<close>

type_synonym event = "int \<times> int"

text \<open>\<^verbatim>\<open>get_averages\<close>: the first loop sums the durations, the second divides each duration
  by that sum. \<^verbatim>\<open>notes_and_times[j][1] / total_time\<close> raises \<^verbatim>\<open>ZeroDivisionError\<close> when the
  sum is 0; with an empty list no division is made and 0.0 is returned.\<close>

fun total_loop :: "event list \<Rightarrow> int \<Rightarrow> int" where
  "total_loop [] total_time = total_time"
| "total_loop (e # es) total_time = total_loop es (total_time + snd e)"

fun average_loop :: "int \<Rightarrow> event list \<Rightarrow> real \<Rightarrow> error + real" where
  "average_loop total_time [] average = Inr average"
| "average_loop total_time (e # es) average =
     (if total_time = 0 then Inl ZeroDivisionError
      else average_loop total_time es
             (average + real_of_int (fst e) * (real_of_int (snd e) / real_of_int total_time)))"

definition get_averages :: "event list \<Rightarrow> error + real" where
  "get_averages notes_and_times =
     average_loop (total_loop notes_and_times 0) notes_and_times 0"

text \<open>The inner \<^verbatim>\<open>while True\<close> of \<^verbatim>\<open>average_notes\<close>: emit the note once, take one quarter
  off, leave when less than a quarter remains. It is entered only with at least a quarter
  left.\<close>

function whole_quarters :: "int \<Rightarrow> real \<Rightarrow> real list \<Rightarrow> int \<times> real list" where
  "whole_quarters time note ret =
     (let ret' = ret @ [note]; time' = time - quarter_time
      in if time' < quarter_time then (time', ret') else whole_quarters time' note ret')"
  by pat_completeness auto
termination
  by (relation "measure (\<lambda>(time, note, ret). nat time)") (auto simp: quarter_time_def)

record quantizer =
  ret :: "real list"
  averages :: "event list"
  time :: int

text \<open>The three consecutive \<^verbatim>\<open>if\<close> statements of the loop body (they are not
  \<^verbatim>\<open>elif\<close>: each tests the state the previous one left).\<close>

definition below_quarter :: "event \<Rightarrow> quantizer \<Rightarrow> quantizer" where
  "below_quarter e s =
     (if time s < quarter_time then s\<lparr>averages := averages s @ [e]\<rparr> else s)"

definition exact_quarter :: "event \<Rightarrow> quantizer \<Rightarrow> error + quantizer" where
  "exact_quarter e s =
     (if time s = quarter_time then
        (let averages1 = averages s @ [e]
         in case get_averages averages1 of
              Inl err \<Rightarrow> Inl err
            | Inr a \<Rightarrow> Inr (s\<lparr>ret := ret s @ [a], averages := [], time := 0\<rparr>))
      else Inr s)"

definition beyond_quarter :: "event \<Rightarrow> quantizer \<Rightarrow> error + quantizer" where
  "beyond_quarter e s =
     (if time s \<ge> quarter_time then
        (let averages1 = averages s @ [(fst e, snd e - (time s - quarter_time))]
         in case get_averages averages1 of
              Inl err \<Rightarrow> Inl err
            | Inr a \<Rightarrow>
                (let ret1 = ret s @ [a];
                     time1 = snd e - snd (last averages1);
                     (time2, ret2) =
                        (if time1 \<ge> quarter_time
                         then whole_quarters time1 (real_of_int (fst e)) ret1
                         else (time1, ret1))
                 in Inr (s\<lparr>ret := ret2,
                            averages := (if time2 \<noteq> 0 then [(fst e, time2)] else []),
                            time := time2\<rparr>)))
      else Inr s)"

fun quantize_loop :: "event list \<Rightarrow> quantizer \<Rightarrow> error + quantizer" where
  "quantize_loop [] s = Inr s"
| "quantize_loop (e # es) s =
     (let s1 = s\<lparr>time := time s + snd e\<rparr>
      in if fst e = 0 then quantize_loop es s1
         else case exact_quarter e (below_quarter e s1) of
                Inl err \<Rightarrow> Inl err
              | Inr s2 \<Rightarrow>
                  (case beyond_quarter e s2 of
                     Inl err \<Rightarrow> Inl err
                   | Inr s3 \<Rightarrow> quantize_loop es s3))"

definition average_notes :: "event list \<Rightarrow> error + real list" where
  "average_notes original_melody =
     (case quantize_loop original_melody \<lparr>ret = [], averages = [], time = 0\<rparr> of
        Inl err \<Rightarrow> Inl err
      | Inr s \<Rightarrow> Inr (map (\<lambda>v. v - 24) (ret s)))"

section \<open>Fitness evaluator\<close>

text \<open>The body of the loop of \<^verbatim>\<open>similarity_to_original_melody\<close> at slot \<open>i\<close>: the value added
  to the score.\<close>

definition slot_diff :: "individual \<Rightarrow> real list \<Rightarrow> nat \<Rightarrow> real" where
  "slot_diff individual target i =
     (let tonic = tonic_of (individual ! i);
          mediant = mediant_of (individual ! i);
          dominant = dominant_of (individual ! i);
          diff_ton = \<bar>target ! i - real_of_int tonic\<bar>;
          diff_med = \<bar>target ! i - real_of_int mediant\<bar>;
          diff_dom = \<bar>target ! i - real_of_int dominant\<bar>;
          diff1 = max (10 - diff_ton) 0;
          diff2 = max (10 - diff_med) 0;
          diff3 = max (10 - diff_dom) 0
      in diff2 * 10 + diff1 * 5 + diff3 * 5)"

fun similarity_loop :: "individual \<Rightarrow> real list \<Rightarrow> nat list \<Rightarrow> real \<Rightarrow> real" where
  "similarity_loop individual target [] score = score"
| "similarity_loop individual target (i # is) score =
     similarity_loop individual target is (score + slot_diff individual target i)"

definition similarity_to_original_melody :: "individual \<Rightarrow> real list \<Rightarrow> real" where
  "similarity_to_original_melody individual target =
     similarity_loop individual target [0..<min (length individual) (length target)] 0"

text \<open>The triad on degree \<open>j\<close> in \<^verbatim>\<open>chord_exists\<close>: the three names are read from
  \<^verbatim>\<open>possible_chords\<close> before any comparison, so a list too short for an index raises.\<close>

definition triad_at :: "string list \<Rightarrow> nat \<Rightarrow> error + chord" where
  "triad_at possible_chords j =
     (case py_index possible_chords (int ((j + 0) mod 7)) of
        Inl e \<Rightarrow> Inl e
      | Inr nx \<Rightarrow>
     (case py_index possible_chords (int ((j + 2) mod 7)) of
        Inl e \<Rightarrow> Inl e
      | Inr ny \<Rightarrow>
     (case py_index possible_chords (int ((j + 4) mod 7)) of
        Inl e \<Rightarrow> Inl e
      | Inr nz \<Rightarrow>
          Inr (note_to_midi_number nx 0, note_to_midi_number ny 0, note_to_midi_number nz 0))))"

text \<open>The inner loop over \<open>j\<close>; the result says whether it left through \<^verbatim>\<open>break\<close>.\<close>

fun triad_loop :: "int \<Rightarrow> int \<Rightarrow> int \<Rightarrow> string list \<Rightarrow> nat list \<Rightarrow> error + bool" where
  "triad_loop tonic mediant dominant possible_chords [] = Inr False"
| "triad_loop tonic mediant dominant possible_chords (j # js) =
     (case triad_at possible_chords j of
        Inl e \<Rightarrow> Inl e
      | Inr (x, y, z) \<Rightarrow>
          (if tonic = x \<and> y = mediant \<and> z = dominant then Inr True
           else triad_loop tonic mediant dominant possible_chords js))"

definition chord_possible :: "chord \<Rightarrow> string list \<Rightarrow> error + bool" where
  "chord_possible c possible_chords =
     (let tonic = tonic_of c mod 12;
          mediant = mediant_of c mod 12;
          dominant = dominant_of c mod 12
      in triad_loop tonic mediant dominant possible_chords [0..<length possible_chords])"

fun chord_exists_loop :: "individual \<Rightarrow> string list \<Rightarrow> int \<Rightarrow> error + int" where
  "chord_exists_loop [] possible_chords score = Inr score"
| "chord_exists_loop (c # cs) possible_chords score =
     (case chord_possible c possible_chords of
        Inl e \<Rightarrow> Inl e
      | Inr possible \<Rightarrow>
          chord_exists_loop cs possible_chords (if possible then score + 100 else score - 100))"

definition chord_exists :: "individual \<Rightarrow> string list \<Rightarrow> error + int" where
  "chord_exists individual possible_chords = chord_exists_loop individual possible_chords 0"

text \<open>The body of the loop of \<^verbatim>\<open>redundant_chords\<close> at index \<open>i\<close>. The loops over \<open>j\<close> run
  once per entry of the chord (three times) and repeat one comparison of tonics.\<close>

definition redundant_step :: "individual \<Rightarrow> nat \<Rightarrow> int \<Rightarrow> int" where
  "redundant_step individual i score =
     (let score1 =
            (if i \<ge> 2 then
               (let first = tonic_of (individual ! (i - 2));
                    second = tonic_of (individual ! (i - 1));
                    third = tonic_of (individual ! i);
                    redundant = foldl (\<lambda>r j. if first \<noteq> second \<or> first \<noteq> third \<or> second \<noteq> third
                                              then False else r) True [0..<3]
                in if redundant then score - 100 else score + 100)
             else score)
      in if i \<ge> 1 then
           (let first = tonic_of (individual ! (i - 1));
                second = tonic_of (individual ! i);
                pair = foldl (\<lambda>r j. if first \<noteq> second then False else r) True [0..<3]
            in if pair then score1 + 100 else score1 - 100)
         else score1)"

fun redundant_loop :: "individual \<Rightarrow> nat list \<Rightarrow> int \<Rightarrow> int" where
  "redundant_loop individual [] score = score"
| "redundant_loop individual (i # is) score =
     redundant_loop individual is (redundant_step individual i score)"

definition redundant_chords :: "individual \<Rightarrow> int" where
  "redundant_chords individual = redundant_loop individual [0..<length individual] 0"

definition individual_fitness :: "individual \<Rightarrow> real list \<Rightarrow> string list \<Rightarrow> error + real" where
  "individual_fitness individual target possible_chords =
     (let score = 0 + similarity_to_original_melody individual target
      in case chord_exists individual possible_chords of
           Inl e \<Rightarrow> Inl e
         | Inr c \<Rightarrow> Inr (score + real_of_int c + real_of_int (redundant_chords individual)))"

text \<open>The value a fitness call returns, for statements that compare fitnesses.\<close>

definition fitness_value :: "individual \<Rightarrow> real list \<Rightarrow> string list \<Rightarrow> real" where
  "fitness_value individual target possible_chords =
     (case individual_fitness individual target possible_chords of Inl e \<Rightarrow> 0 | Inr v \<Rightarrow> v)"

text \<open>The scale-membership test as the specification words it: the reduced tones are the pitch
  classes of the triad on some degree \<open>j\<close> of a seven-note scale.\<close>

definition diatonic_triad :: "string list \<Rightarrow> chord \<Rightarrow> bool" where
  "diatonic_triad scale c =
     (\<exists>j \<in> {0..<7}.
        tonic_of c mod 12 = note_to_midi_number (scale ! j) 0 \<and>
        mediant_of c mod 12 = note_to_midi_number (scale ! ((j + 2) mod 7)) 0 \<and>
        dominant_of c mod 12 = note_to_midi_number (scale ! ((j + 4) mod 7)) 0)"

section \<open>Selection and result extraction\<close>

text \<open>\<^verbatim>\<open>np.random.permutation(population)\<close>: a copy of the population in the drawn order;
  \<open>order\<close> is the draw, a rearrangement of \<open>[0..<length population]\<close>.\<close>

definition permutation :: "nat list \<Rightarrow> 'a list \<Rightarrow> 'a list" where
  "permutation order population = map (\<lambda>i. population ! i) order"

definition is_order :: "nat list \<Rightarrow> nat \<Rightarrow> bool" where
  "is_order order n = (sort order = [0..<n])"

text \<open>One match of the tournament: the contestant at \<open>contestantID\<close> against the next one. The
  first is kept only when its fitness is strictly greater.\<close>

definition tournament_match ::
  "individual list \<Rightarrow> real list \<Rightarrow> string list \<Rightarrow> nat \<Rightarrow> error + individual"
where
  "tournament_match tournament_bracket target possible_chords contestantID =
     (case py_index tournament_bracket (int contestantID) of
        Inl e \<Rightarrow> Inl e
      | Inr a \<Rightarrow>
     (case individual_fitness a target possible_chords of
        Inl e \<Rightarrow> Inl e
      | Inr fa \<Rightarrow>
     (case py_index tournament_bracket (int (contestantID + 1)) of
        Inl e \<Rightarrow> Inl e
      | Inr b \<Rightarrow>
     (case individual_fitness b target possible_chords of
        Inl e \<Rightarrow> Inl e
      | Inr fb \<Rightarrow> Inr (if fa > fb then a else b)))))"

fun selection_loop ::
  "individual list \<Rightarrow> real list \<Rightarrow> string list \<Rightarrow> nat list \<Rightarrow> individual list \<Rightarrow> error + individual list"
where
  "selection_loop tournament_bracket target possible_chords [] tournament_winners =
     Inr tournament_winners"
| "selection_loop tournament_bracket target possible_chords (contestantID # ids) tournament_winners =
     (if contestantID mod 2 \<noteq> 0 then
        selection_loop tournament_bracket target possible_chords ids tournament_winners
      else
        (case tournament_match tournament_bracket target possible_chords contestantID of
           Inl e \<Rightarrow> Inl e
         | Inr winner \<Rightarrow>
             selection_loop tournament_bracket target possible_chords ids
               (tournament_winners @ [winner])))"

definition selection ::
  "nat list \<Rightarrow> individual list \<Rightarrow> real list \<Rightarrow> string list \<Rightarrow> error + individual list"
where
  "selection order population target possible_chords =
     (let tournament_bracket = permutation order population
      in selection_loop tournament_bracket target possible_chords
           [0..<length tournament_bracket] [])"

text \<open>The scan of \<^verbatim>\<open>get_best_individual\<close>. The source calls the fitness a second time to
  store it; the call has no effect, so it returns the same value.\<close>

fun best_loop ::
  "individual list \<Rightarrow> real list \<Rightarrow> string list \<Rightarrow> individual \<Rightarrow> real \<Rightarrow> error + individual"
where
  "best_loop [] average possible_chords best_individual mx = Inr best_individual"
| "best_loop (individual # rest_of_population) average possible_chords best_individual mx =
     (case individual_fitness individual average possible_chords of
        Inl e \<Rightarrow> Inl e
      | Inr f \<Rightarrow>
          (if f > mx then best_loop rest_of_population average possible_chords individual f
           else best_loop rest_of_population average possible_chords best_individual mx))"

definition get_best_individual ::
  "individual list \<Rightarrow> real list \<Rightarrow> string list \<Rightarrow> error + individual"
where
  "get_best_individual population average possible_chords =
     best_loop population average possible_chords [] 0"

section \<open>Crossover and mutation\<close>

text \<open>
  \<^verbatim>\<open>mutation\<close> assigns into the list it is given (\<^verbatim>\<open>individual[chord] = ...\<close>) and
  \<^verbatim>\<open>crossover\<close> appends to the child lists it creates, so individuals are objects in a store:
  an address is a position of the store, and a new object goes to its end. Chords are never
  written into, so they stay values.
\<close>

type_synonym addr = nat
type_synonym store = "individual list"

definition alloc :: "store \<Rightarrow> addr \<times> store" where
  \<comment> \<open>a new empty list, \<^verbatim>\<open>[]\<close>\<close>
  "alloc h = (length h, h @ [[]])"

definition append_to :: "addr \<Rightarrow> chord \<Rightarrow> store \<Rightarrow> store" where
  \<comment> \<open>\<^verbatim>\<open>obj.append(g)\<close>\<close>
  "append_to a g h = h[a := h ! a @ [g]]"

definition assign :: "addr \<Rightarrow> nat \<Rightarrow> chord \<Rightarrow> store \<Rightarrow> store" where
  \<comment> \<open>\<^verbatim>\<open>obj[i] = g\<close>\<close>
  "assign a i g h = h[a := (h ! a)[i := g]]"

text \<open>One draw of the mutation loop: the number \<^verbatim>\<open>random.uniform(0, 1)\<close>, the nine roots
  \<^verbatim>\<open>random.randint(0, 110)\<close> of the candidate list and the position \<^verbatim>\<open>random.choice\<close>
  takes from it.\<close>

record gene_draw =
  uniform :: real
  randint :: "nat \<Rightarrow> int"
  choice :: nat

definition random_chord :: "gene_draw \<Rightarrow> chord" where
  "random_chord d =
     (let candidates =
            [major_triad (randint d 0),
             minor_triad (randint d 1),
             first_inverted_major (randint d 2),
             first_inverted_minor (randint d 3),
             second_inverted_major (randint d 4),
             second_inverted_minor (randint d 5),
             sus2 (randint d 6),
             sus4 (randint d 7),
             diminished (randint d 8),
             rest]
      in candidates ! (choice d mod length candidates))"

definition mutation_step :: "(nat \<Rightarrow> gene_draw) \<Rightarrow> addr \<Rightarrow> nat \<Rightarrow> store \<Rightarrow> store" where
  "mutation_step draw individual chord h =
     (let probability_of_mutation = uniform (draw chord)
      in if probability_of_mutation < 0.05
         then assign individual chord (random_chord (draw chord)) h
         else h)"

fun mutation_loop :: "(nat \<Rightarrow> gene_draw) \<Rightarrow> addr \<Rightarrow> nat list \<Rightarrow> store \<Rightarrow> store" where
  "mutation_loop draw individual [] h = h"
| "mutation_loop draw individual (chord # chords) h =
     mutation_loop draw individual chords (mutation_step draw individual chord h)"

definition mutation :: "(nat \<Rightarrow> gene_draw) \<Rightarrow> addr \<Rightarrow> store \<Rightarrow> addr \<times> store" where
  "mutation draw individual h =
     (individual, mutation_loop draw individual [0..<length (h ! individual)] h)"

text \<open>The draws one pair of parents consumes: the coin of each gene index and the mutation
  draws of the two children.\<close>

record pair_draw =
  coin :: "nat \<Rightarrow> real"
  first_child :: "nat \<Rightarrow> gene_draw"
  second_child :: "nat \<Rightarrow> gene_draw"

text \<open>The body of the gene loop of \<^verbatim>\<open>crossover\<close> at index \<open>i\<close>. The index runs over the
  first parent's length, so reading the second parent raises when it is shorter.\<close>

definition gene_step ::
  "(nat \<Rightarrow> real) \<Rightarrow> addr \<Rightarrow> addr \<Rightarrow> addr \<Rightarrow> addr \<Rightarrow> nat \<Rightarrow> store \<Rightarrow> error + store"
where
  "gene_step probability p1 p2 new_child1 new_child2 i h =
     (case py_index (h ! p1) (int i) of
        Inl e \<Rightarrow> Inl e
      | Inr g1 \<Rightarrow>
     (case py_index (h ! p2) (int i) of
        Inl e \<Rightarrow> Inl e
      | Inr g2 \<Rightarrow>
          (if probability i \<ge> 0.5
           then Inr (append_to new_child2 g2 (append_to new_child1 g1 h))
           else Inr (append_to new_child2 g1 (append_to new_child1 g2 h)))))"

fun gene_loop ::
  "(nat \<Rightarrow> real) \<Rightarrow> addr \<Rightarrow> addr \<Rightarrow> addr \<Rightarrow> addr \<Rightarrow> nat list \<Rightarrow> store \<Rightarrow> error + store"
where
  "gene_loop probability p1 p2 new_child1 new_child2 [] h = Inr h"
| "gene_loop probability p1 p2 new_child1 new_child2 (i # is) h =
     (case gene_step probability p1 p2 new_child1 new_child2 i h of
        Inl e \<Rightarrow> Inl e
      | Inr h' \<Rightarrow> gene_loop probability p1 p2 new_child1 new_child2 is h')"

text \<open>The two children of a pair as they stand before \<^verbatim>\<open>mutation\<close> is called: two new
  lists filled by the gene loop.\<close>

definition build_children ::
  "(nat \<Rightarrow> real) \<Rightarrow> addr \<Rightarrow> addr \<Rightarrow> store \<Rightarrow> error + (addr \<times> addr \<times> store)"
where
  "build_children probability p1 p2 h =
     (let (new_child1, h1) = alloc h;
          (new_child2, h2) = alloc h1
      in case gene_loop probability p1 p2 new_child1 new_child2 [0..<length (h2 ! p1)] h2 of
           Inl e \<Rightarrow> Inl e
         | Inr h3 \<Rightarrow> Inr (new_child1, new_child2, h3))"

text \<open>The body of the loop over \<^verbatim>\<open>parent\<close> for an even index. The permuted array
  \<^verbatim>\<open>parents\<close> occupies the addresses \<open>0..<n\<close> of the store, so \<^verbatim>\<open>parents[parent]\<close> is the
  address \<open>parent\<close>, and \<^verbatim>\<open>parents[parent + 1]\<close> raises when there is no such row.\<close>

definition mate ::
  "(nat \<Rightarrow> pair_draw) \<Rightarrow> nat \<Rightarrow> nat \<Rightarrow> addr list \<Rightarrow> store \<Rightarrow> error + (addr list \<times> store)"
where
  "mate draw n parent new_population h =
     (if \<not> parent + 1 < n then Inl IndexError
      else
        (let new_population1 = new_population @ [parent, parent + 1]
         in case build_children (coin (draw parent)) parent (parent + 1) h of
              Inl e \<Rightarrow> Inl e
            | Inr (new_child1, new_child2, h1) \<Rightarrow>
                (let (m1, h2) = mutation (first_child (draw parent)) new_child1 h1;
                     (m2, h3) = mutation (second_child (draw parent)) new_child2 h2
                 in Inr (new_population1 @ [m1, m2], h3))))"

fun crossover_loop ::
  "(nat \<Rightarrow> pair_draw) \<Rightarrow> nat \<Rightarrow> nat list \<Rightarrow> addr list \<Rightarrow> store \<Rightarrow> error + (addr list \<times> store)"
where
  "crossover_loop draw n [] new_population h = Inr (new_population, h)"
| "crossover_loop draw n (parent # ps) new_population h =
     (if parent mod 2 \<noteq> 0 then crossover_loop draw n ps new_population h
      else
        (case mate draw n parent new_population h of
           Inl e \<Rightarrow> Inl e
         | Inr (new_population', h') \<Rightarrow> crossover_loop draw n ps new_population' h'))"

text \<open>\<^verbatim>\<open>crossover\<close> returns the list of objects; the result is read through the final store.\<close>

definition crossover ::
  "nat list \<Rightarrow> (nat \<Rightarrow> pair_draw) \<Rightarrow> individual list \<Rightarrow> error + individual list"
where
  "crossover order draw population =
     (let parents = permutation order population
      in case crossover_loop draw (length parents) [0..<length parents] [] parents of
           Inl e \<Rightarrow> Inl e
         | Inr (new_population, h) \<Rightarrow> Inr (map (\<lambda>a. h ! a) new_population))"

text \<open>The value of one object after \<^verbatim>\<open>mutation\<close>, and of the two children built from two
  parents, read off a store that holds nothing else.\<close>

definition mutated :: "(nat \<Rightarrow> gene_draw) \<Rightarrow> individual \<Rightarrow> individual" where
  "mutated draw x = snd (mutation draw 0 [x]) ! 0"

definition children_of ::
  "(nat \<Rightarrow> real) \<Rightarrow> individual \<Rightarrow> individual \<Rightarrow> error + (individual \<times> individual)"
where
  "children_of probability x y =
     (case build_children probability 0 1 [x, y] of
        Inl e \<Rightarrow> Inl e
      | Inr (c1, c2, h) \<Rightarrow> Inr (h ! c1, h ! c2))"

section \<open>Output encoder\<close>

text \<open>A \<^verbatim>\<open>mido.Message\<close>: type, channel, note, velocity, time. The library's own checks of
  the fields are outside the program and are not modelled.\<close>

datatype message = Message string int int int int

text \<open>The body of the loop of \<^verbatim>\<open>write_output\<close> for one chord \<open>x\<close>: the track and the
  pending rest time after it.\<close>

definition chord_step :: "chord \<Rightarrow> message list \<times> int \<Rightarrow> message list \<times> int" where
  "chord_step x s =
     (let generated_track = fst s;
          rest_time = snd s;
          tonic = tonic_of x;
          mediant = mediant_of x;
          dominant = dominant_of x
      in if tonic = 0 then (generated_track, rest_time + quarter_time)
         else
           (generated_track @
              [Message ''note_on'' 0 tonic 50 rest_time,
               Message ''note_on'' 0 mediant 50 0,
               Message ''note_on'' 0 dominant 50 0,
               Message ''note_off'' 0 tonic 0 quarter_time,
               Message ''note_off'' 0 mediant 0 0,
               Message ''note_off'' 0 dominant 0 0],
            if rest_time \<noteq> 0 then 0 else rest_time))"

fun chord_loop :: "individual \<Rightarrow> message list \<times> int \<Rightarrow> message list \<times> int" where
  "chord_loop [] s = s"
| "chord_loop (x # xs) s = chord_loop xs (chord_step x s)"

text \<open>The track \<^verbatim>\<open>write_output\<close> generates; \<open>track\<close> is \<^verbatim>\<open>input_mid.tracks[1]\<close>, whose first
  and last messages frame the chords.\<close>

definition write_output :: "message list \<Rightarrow> individual \<Rightarrow> error + message list" where
  "write_output track best_individual =
     (case py_index track 0 of
        Inl e \<Rightarrow> Inl e
      | Inr first_message \<Rightarrow>
          (let generated_track = fst (chord_loop best_individual ([first_message], 0))
           in case py_index track (int (length track) - 1) of
                Inl e \<Rightarrow> Inl e
              | Inr last_message \<Rightarrow> Inr (generated_track @ [last_message])))"

section \<open>Properties of the pitch codec\<close>

lemma notes_range: "[0..<length notes_list] = [0, 1, 2, 3, 4, 5, 6, 7, 8, 9, 10, 11]"
  by (simp add: upt_rec notes_list_def)

lemma note_search_chain:
  "note_search note [0..<length notes_list] 0 =
     (if note = ''C'' then 0 else if note = ''C#'' then 1 else if note = ''D'' then 2
      else if note = ''D#'' then 3 else if note = ''E'' then 4 else if note = ''F'' then 5
      else if note = ''F#'' then 6 else if note = ''G'' then 7 else if note = ''G#'' then 8
      else if note = ''A'' then 9 else if note = ''A#'' then 10 else if note = ''B'' then 11
      else 0)"
  unfolding notes_range by (simp add: notes_list_def)










section \<open>Properties of the melody quantizer\<close>

lemma whole_quarters_multiple:
  "t = int (Suc n) * quarter_time \<Longrightarrow>
     whole_quarters t note r = (0, r @ replicate (Suc n) note)"
proof (induction n arbitrary: t r)
  case 0
  then show ?case by (simp add: quarter_time_def)
next
  case (Suc n)
  have t': "t - quarter_time = int (Suc n) * quarter_time"
    using Suc.prems by (simp add: algebra_simps)
  have "\<not> t - quarter_time < quarter_time"
    unfolding t' by (simp add: quarter_time_def)
  then have "whole_quarters t note r = whole_quarters (t - quarter_time) note (r @ [note])"
    by (subst whole_quarters.simps) (simp add: Let_def)
  also have "\<dots> = (0, (r @ [note]) @ replicate (Suc n) note)"
    by (rule Suc.IH [OF t'])
  finally show ?case by (simp add: replicate_app_Cons_same)
qed

lemma get_averages_single: "d \<noteq> 0 \<Longrightarrow> get_averages [(p, d)] = Inr (real_of_int p)"
  by (simp add: get_averages_def)

lemma beyond_quarter_multiple:
  assumes d: "d = int (Suc (Suc n)) * quarter_time"
  shows "beyond_quarter (p, d) \<lparr>ret = [], averages = [], time = d\<rparr>
       = Inr \<lparr>ret = replicate (Suc (Suc n)) (real_of_int p), averages = [], time = 0\<rparr>"
proof -
  have e: "d - (d - quarter_time) = quarter_time" by simp
  have q: "quarter_time \<noteq> 0" by (simp add: quarter_time_def)
  have t1: "d - quarter_time = int (Suc n) * quarter_time"
    using d by (simp add: algebra_simps)
  have ge: "quarter_time \<le> d" "quarter_time \<le> d - quarter_time"
    unfolding t1 unfolding d by (simp_all add: quarter_time_def)
  have w: "whole_quarters (d - quarter_time) (real_of_int p) [real_of_int p]
         = (0, replicate (Suc (Suc n)) (real_of_int p))"
    using whole_quarters_multiple [OF t1, of "real_of_int p" "[real_of_int p]"] by simp
  show ?thesis
    unfolding beyond_quarter_def
    by (simp only: quantizer.simps fst_conv snd_conv append_Nil e get_averages_single [OF q] ge
        if_True Let_def sum.case last.simps w prod.case simp_thms if_False)
qed

text \<open>
  Claim C2. For every pitch \<open>p \<noteq> 0\<close> and every \<open>k \<ge> 1\<close>, \<^verbatim>\<open>average_notes\<close> on the
  one-event melody \<open>[(p, k * 384)]\<close> returns exactly \<open>k\<close> slot values, each equal to
  \<open>p - 24\<close>.
\<close>

theorem average_notes_single_note:
  assumes "p \<noteq> 0" and "1 \<le> k"
  shows "average_notes [(p, int k * 384)] = Inr (replicate k (real_of_int p - 24))"
proof (cases "k = 1")
  case True
  then show ?thesis
    using assms
    by (simp add: average_notes_def below_quarter_def exact_quarter_def beyond_quarter_def
        get_averages_single quarter_time_def Let_def)
next
  case False
  then obtain n where k: "k = Suc (Suc n)"
    using assms(2) by (cases k; simp; rename_tac m; case_tac m; simp)
  define d where "d = int k * 384"
  have dq: "d = int (Suc (Suc n)) * quarter_time"
    by (simp add: d_def k quarter_time_def)
  let ?s = "\<lparr>ret = [], averages = [], time = d\<rparr>"
  have b: "below_quarter (p, d) ?s = ?s"
    by (simp add: below_quarter_def quarter_time_def k d_def)
  have x: "exact_quarter (p, d) ?s = Inr ?s"
    by (simp add: exact_quarter_def quarter_time_def k d_def)
  have "quantize_loop [(p, d)] \<lparr>ret = [], averages = [], time = 0\<rparr>
      = Inr \<lparr>ret = replicate k (real_of_int p), averages = [], time = 0\<rparr>"
    using assms(1)
    by (simp add: Let_def b x beyond_quarter_multiple [OF dq] k del: replicate.simps)
  then show ?thesis by (simp add: average_notes_def d_def)
qed

theorem average_notes_single_note_witness:
  "(60::int) \<noteq> 0 \<and> (1::nat) \<le> 3 \<and>
   average_notes [(60, 1152)] = Inr [36, 36, 36]"
  using average_notes_single_note [of 60 3] by (simp add: numeral_3_eq_3)

text \<open>
  Claim C3 says that a melody with at least one sounding note never makes
  \<^verbatim>\<open>average_notes\<close> divide by a total duration of 0. A gap only advances the elapsed time,
  and the slot boundary is not checked for it; after a gap of exactly one quarter the next
  note closes the slot with an entry of duration 0, the only entry of the buffer, and
  \<^verbatim>\<open>get_averages\<close> raises \<^verbatim>\<open>ZeroDivisionError\<close>.
\<close>

theorem average_notes_divides_by_zero:
  "average_notes [(0, 384), (60, 100)] = Inl ZeroDivisionError"
  by (simp add: average_notes_def below_quarter_def exact_quarter_def beyond_quarter_def
      get_averages_def quarter_time_def Let_def)

section \<open>Properties of the fitness evaluator\<close>

lemma similarity_loop_sum:
  "similarity_loop individual target is score
     = score + sum_list (map (slot_diff individual target) is)"
  by (induction "is" arbitrary: score) simp_all

lemma slot_diff_expanded:
  "slot_diff individual target i =
       max (10 - \<bar>target ! i - real_of_int (mediant_of (individual ! i))\<bar>) 0 * 10
     + max (10 - \<bar>target ! i - real_of_int (tonic_of (individual ! i))\<bar>) 0 * 5
     + max (10 - \<bar>target ! i - real_of_int (dominant_of (individual ! i))\<bar>) 0 * 5"
  by (simp add: slot_diff_def Let_def)

text \<open>
  Claim C6. For every individual and target, the melodic-similarity term is the sum, over the
  slots \<open>i\<close> below the shorter of the two lengths, of
  \<open>max(10 - |target[i] - mediant|, 0) * 10 + max(10 - |target[i] - tonic|, 0) * 5
   + max(10 - |target[i] - dominant|, 0) * 5\<close>. So in any slot no tone contributes a negative
  amount, a tone at distance 10 or more from the target contributes exactly 0, and a tone equal
  to the target contributes ten times its weight, the largest amount a tone can contribute.
\<close>

theorem similarity_closed_form:
  "let part = (\<lambda>i x. max (10 - \<bar>target ! i - real_of_int x\<bar>) 0)
   in similarity_to_original_melody individual target =
        (\<Sum>i<min (length individual) (length target).
             part i (mediant_of (individual ! i)) * 10
           + part i (tonic_of (individual ! i)) * 5
           + part i (dominant_of (individual ! i)) * 5)
    \<and> (\<forall>i. slot_diff individual target i =
               part i (mediant_of (individual ! i)) * 10
             + part i (tonic_of (individual ! i)) * 5
             + part i (dominant_of (individual ! i)) * 5)
    \<and> (\<forall>i x. 0 \<le> part i x \<and> part i x \<le> 10)
    \<and> (\<forall>i x. 10 \<le> \<bar>target ! i - real_of_int x\<bar> \<longrightarrow> part i x = 0)
    \<and> (\<forall>i x. target ! i = real_of_int x \<longrightarrow> part i x = 10)"
proof -
  have "similarity_to_original_melody individual target
      = sum_list (map (slot_diff individual target) [0..<min (length individual) (length target)])"
    by (simp add: similarity_to_original_melody_def similarity_loop_sum)
  also have "\<dots> = (\<Sum>i<min (length individual) (length target). slot_diff individual target i)"
    by (simp add: interv_sum_list_conv_sum_set_nat atLeast0LessThan)
  finally have "similarity_to_original_melody individual target =
      (\<Sum>i<min (length individual) (length target).
           max (10 - \<bar>target ! i - real_of_int (mediant_of (individual ! i))\<bar>) 0 * 10
         + max (10 - \<bar>target ! i - real_of_int (tonic_of (individual ! i))\<bar>) 0 * 5
         + max (10 - \<bar>target ! i - real_of_int (dominant_of (individual ! i))\<bar>) 0 * 5)"
    by (simp add: slot_diff_expanded)
  then show ?thesis
    by (simp add: Let_def slot_diff_expanded)
qed

theorem similarity_closed_form_witness:
  "similarity_to_original_melody [(60, 64, 75)] [60] = 6 * 10 + 10 * 5 + 0 * 5
   \<and> slot_diff [(60, 64, 75)] [60] 0 = 6 * 10 + 10 * 5 + 0 * 5
   \<and> 10 \<le> \<bar>[60 :: real] ! 0 - real_of_int 75\<bar>
   \<and> max (10 - \<bar>[60 :: real] ! 0 - real_of_int 75\<bar>) 0 = 0
   \<and> [60 :: real] ! 0 = real_of_int 60
   \<and> max (10 - \<bar>[60 :: real] ! 0 - real_of_int 60\<bar>) 0 = 10"
  using similarity_closed_form [where individual = "[(60, 64, 75)]" and target = "[60]"]
  by (simp add: Let_def tonic_of_def mediant_of_def dominant_of_def)

lemma triad_at_seven:
  assumes "length possible_chords = 7"
  shows "triad_at possible_chords j =
           Inr (note_to_midi_number (possible_chords ! (j mod 7)) 0,
                note_to_midi_number (possible_chords ! ((j + 2) mod 7)) 0,
                note_to_midi_number (possible_chords ! ((j + 4) mod 7)) 0)"
  using assms by (simp add: triad_at_def py_index_def Let_def)

lemma triad_loop_seven:
  assumes "length possible_chords = 7"
  shows "triad_loop t m d possible_chords js =
           Inr (\<exists>j \<in> set js.
                  t = note_to_midi_number (possible_chords ! (j mod 7)) 0 \<and>
                  m = note_to_midi_number (possible_chords ! ((j + 2) mod 7)) 0 \<and>
                  d = note_to_midi_number (possible_chords ! ((j + 4) mod 7)) 0)"
proof (induction js)
  case Nil
  show ?case by simp
next
  case (Cons j js)
  show ?case
    by (simp add: triad_at_seven [OF assms] Cons.IH) blast
qed

lemma chord_possible_seven:
  assumes "length possible_chords = 7"
  shows "chord_possible c possible_chords = Inr (diatonic_triad possible_chords c)"
proof -
  have "(\<exists>j \<in> set [0..<7].
           tonic_of c mod 12 = note_to_midi_number (possible_chords ! (j mod 7)) 0 \<and>
           mediant_of c mod 12 = note_to_midi_number (possible_chords ! ((j + 2) mod 7)) 0 \<and>
           dominant_of c mod 12 = note_to_midi_number (possible_chords ! ((j + 4) mod 7)) 0)
        = diatonic_triad possible_chords c"
    unfolding diatonic_triad_def by (rule bex_cong) auto
  then show ?thesis
    unfolding chord_possible_def Let_def by (simp only: triad_loop_seven [OF assms] assms)
qed

lemma chord_exists_loop_seven:
  assumes "length possible_chords = 7"
  shows "chord_exists_loop individual possible_chords score =
           Inr (score + (\<Sum>c\<leftarrow>individual. if diatonic_triad possible_chords c then 100 else - 100))"
  by (induction individual arbitrary: score) (simp_all add: chord_possible_seven [OF assms])

lemma pitch_class_B:
  "note_to_midi_number name 0 = 11 \<Longrightarrow> name = ''B''"
  unfolding note_to_midi_number_def note_search_chain by (simp split: if_splits)

lemma rest_not_diatonic:
  assumes "length scale = 7" and "distinct scale"
  shows "\<not> diatonic_triad scale rest"
proof
  assume "diatonic_triad scale rest"
  then obtain j where j: "j < 7"
    and t: "note_to_midi_number (scale ! j) 0 = 11"
    and m: "note_to_midi_number (scale ! ((j + 2) mod 7)) 0 = 11"
    unfolding diatonic_triad_def rest_def tonic_of_def mediant_of_def by auto
  have "scale ! j = scale ! ((j + 2) mod 7)"
    using pitch_class_B [OF t] pitch_class_B [OF m] by simp
  moreover have "j \<noteq> (j + 2) mod 7"
    using j by presburger
  ultimately show False
    using assms j by (simp add: nth_eq_iff_index_eq)
qed

lemma c_major_classes:
  "map (\<lambda>n. note_to_midi_number n 0) [''C'', ''D'', ''E'', ''F'', ''G'', ''A'', ''B'']
     = [0, 2, 4, 5, 7, 9, 11]"
  unfolding note_to_midi_number_def note_search_chain by simp

lemma upt_seven: "[0..<7] = [0, 1, 2, 3, 4, 5, 6]"
  by (simp add: upt_rec)

lemma chord_possible_c_major:
  "chord_possible (0, 4, 7) [''C'', ''D'', ''E'', ''F'', ''G'', ''A'', ''B''] = Inr True"
  "chord_possible (60, 64, 67) [''C'', ''D'', ''E'', ''F'', ''G'', ''A'', ''B''] = Inr True"
  "chord_possible (0, 4, 6) [''C'', ''D'', ''E'', ''F'', ''G'', ''A'', ''B''] = Inr False"
  unfolding chord_possible_def Let_def tonic_of_def mediant_of_def dominant_of_def
  using c_major_classes by (simp_all add: upt_seven triad_at_def py_index_def)

text \<open>
  Claim C7. For every individual and every scale of seven notes, the scale-membership term is
  the sum over the chords of +100 when the three tones reduced mod 12 are the pitch classes
  of the triad on some degree \<open>j\<close> (degrees \<open>j\<close>, \<open>j + 2 mod 7\<close>, \<open>j + 4 mod 7\<close>, each name
  converted at octave 0) and of -100 otherwise. For C major the chord (0, 4, 7) scores +100
  and the chord (0, 4, 6) scores -100. With seven different notes in the scale the rest
  (-1, -1, -1) matches no triad, so every rest contributes -100.
\<close>

theorem chord_exists_scale_membership:
  assumes "length scale = 7"
  shows "chord_exists individual scale =
           Inr (\<Sum>c\<leftarrow>individual. if diatonic_triad scale c then 100 else - 100)
       \<and> chord_exists [(0, 4, 7)] [''C'', ''D'', ''E'', ''F'', ''G'', ''A'', ''B''] = Inr 100
       \<and> chord_exists [(0, 4, 6)] [''C'', ''D'', ''E'', ''F'', ''G'', ''A'', ''B''] = Inr (- 100)
       \<and> (distinct scale \<longrightarrow> \<not> diatonic_triad scale rest \<and> chord_exists [rest] scale = Inr (- 100))"
proof -
  have general: "chord_exists individual scale =
      Inr (\<Sum>c\<leftarrow>individual. if diatonic_triad scale c then 100 else - 100)"
    for individual
    by (simp add: chord_exists_def chord_exists_loop_seven [OF assms])
  have rest_case: "\<not> diatonic_triad scale rest \<and> chord_exists [rest] scale = Inr (- 100)"
    if "distinct scale"
    using rest_not_diatonic [OF assms that] general [of "[rest]"] by simp
  show ?thesis
    using general [of individual] rest_case
    by (simp add: chord_exists_def chord_possible_c_major)
qed

theorem chord_exists_scale_membership_witness:
  "length [''C'', ''D'', ''E'', ''F'', ''G'', ''A'', ''B''] = 7
   \<and> distinct [''C'', ''D'', ''E'', ''F'', ''G'', ''A'', ''B'']
   \<and> chord_exists [rest] [''C'', ''D'', ''E'', ''F'', ''G'', ''A'', ''B''] = Inr (- 100)
   \<and> chord_exists [(0, 4, 7)] [''C'', ''D'', ''E'', ''F'', ''G'', ''A'', ''B''] = Inr 100"
proof -
  have len: "length [''C'', ''D'', ''E'', ''F'', ''G'', ''A'', ''B''] = 7"
    by simp
  have dis: "distinct [''C'', ''D'', ''E'', ''F'', ''G'', ''A'', ''B'']"
    by simp
  show ?thesis
    using len dis chord_exists_scale_membership [OF len, of "[]"] by simp
qed

section \<open>Properties of selection and result extraction\<close>

lemma py_index_nat: "i < length xs \<Longrightarrow> py_index xs (int i) = Inr (xs ! i)"
  by (simp add: py_index_def Let_def)

lemma individual_fitness_total:
  assumes "length possible_chords = 7"
  shows "individual_fitness x target possible_chords = Inr (fitness_value x target possible_chords)"
  unfolding fitness_value_def individual_fitness_def chord_exists_def Let_def
  by (simp add: chord_exists_loop_seven [OF assms])

lemma fitness_examples:
  "individual_fitness [(60, 64, 67)] [60] [''C'', ''D'', ''E'', ''F'', ''G'', ''A'', ''B''] = Inr 225"
  "individual_fitness [(0, 4, 6)] [60] [''C'', ''D'', ''E'', ''F'', ''G'', ''A'', ''B''] = Inr (- 100)"
  by (simp_all add: individual_fitness_def similarity_to_original_melody_def slot_diff_def
      chord_exists_def chord_possible_c_major redundant_chords_def redundant_step_def
      tonic_of_def mediant_of_def dominant_of_def Let_def)

lemma selection_loop_append:
  "selection_loop bracket target pc (xs @ ys) winners =
     (case selection_loop bracket target pc xs winners of
        Inl e \<Rightarrow> Inl e
      | Inr winners' \<Rightarrow> selection_loop bracket target pc ys winners')"
  by (induction xs arbitrary: winners) (simp_all split: sum.splits)

lemma tournament_match_total:
  assumes "length pc = 7" and "Suc i < length bracket"
  shows "tournament_match bracket target pc i =
           Inr (if fitness_value (bracket ! i) target pc > fitness_value (bracket ! Suc i) target pc
                then bracket ! i else bracket ! Suc i)"
proof -
  have a: "py_index bracket (int i) = Inr (bracket ! i)"
    using assms(2) by (simp add: py_index_nat)
  have b: "py_index bracket (int (i + 1)) = Inr (bracket ! Suc i)"
    using assms(2) py_index_nat [of "Suc i" bracket] by simp
  show ?thesis
    unfolding tournament_match_def a b
    by (simp add: individual_fitness_total [OF assms(1)])
qed

lemma selection_loop_pairs:
  assumes "length pc = 7" and "2 * m \<le> length bracket"
  shows "selection_loop bracket target pc [0..<2 * m] winners =
           Inr (winners @
                map (\<lambda>k. if fitness_value (bracket ! (2 * k)) target pc
                               > fitness_value (bracket ! Suc (2 * k)) target pc
                          then bracket ! (2 * k) else bracket ! Suc (2 * k)) [0..<m])"
  using assms(2)
proof (induction m)
  case 0
  show ?case by simp
next
  case (Suc m)
  have split: "[0..<2 * Suc m] = [0..<2 * m] @ [2 * m, Suc (2 * m)]"
    by simp
  have k: "Suc (2 * m) < length bracket"
    using Suc.prems by simp
  have ih: "selection_loop bracket target pc [0..<2 * m] winners =
           Inr (winners @
                map (\<lambda>k. if fitness_value (bracket ! (2 * k)) target pc
                               > fitness_value (bracket ! Suc (2 * k)) target pc
                          then bracket ! (2 * k) else bracket ! Suc (2 * k)) [0..<m])"
    using Suc by simp
  have odd: "Suc (2 * m) mod 2 \<noteq> 0" "(2 * m) mod 2 = 0"
    by presburger+
  show ?case
    unfolding split selection_loop_append ih
    using odd by (simp add: tournament_match_total [OF assms(1) k] del: mult_Suc_right)
qed

lemma is_order_length: "is_order order n \<Longrightarrow> length order = n"
proof -
  assume "is_order order n"
  then have "length (sort order) = length [0..<n]"
    unfolding is_order_def by simp
  then show ?thesis by simp
qed

text \<open>
  Claim C4. For every population of even size, target and scale (of seven notes), one round of
  \<^verbatim>\<open>selection\<close> returns half as many individuals. The survivor of the \<open>k\<close>-th consecutive
  pair of the permuted population is the member with the strictly higher fitness, and the
  second member when the two fitnesses are equal; so a pair with fitnesses \<open>a > b\<close> yields
  the individual with fitness \<open>a\<close>, in whichever order the two stand.
\<close>

theorem selection_tournament:
  assumes "even (length population)"
      and "is_order order (length population)"
      and "length possible_chords = 7"
  shows "\<exists>winners.
           selection order population target possible_chords = Inr winners
         \<and> length winners = length population div 2
         \<and> (\<forall>k < length population div 2.
              let first = permutation order population ! (2 * k);
                  second = permutation order population ! (2 * k + 1);
                  f1 = fitness_value first target possible_chords;
                  f2 = fitness_value second target possible_chords
              in (f1 > f2 \<longrightarrow> winners ! k = first)
               \<and> (f2 > f1 \<longrightarrow> winners ! k = second)
               \<and> (f1 = f2 \<longrightarrow> winners ! k = second))"
proof -
  let ?bracket = "permutation order population"
  let ?m = "length population div 2"
  have len: "length ?bracket = length population"
    by (simp add: permutation_def is_order_length [OF assms(2)])
  have two: "2 * ?m = length population"
    using assms(1) by simp
  have range: "[0..<length ?bracket] = [0..<2 * ?m]"
    by (simp only: len two)
  have bound: "2 * ?m \<le> length ?bracket"
    by (simp only: len two)
  have run: "selection order population target possible_chords =
      Inr (map (\<lambda>k. if fitness_value (?bracket ! (2 * k)) target possible_chords
                         > fitness_value (?bracket ! Suc (2 * k)) target possible_chords
                     then ?bracket ! (2 * k) else ?bracket ! Suc (2 * k)) [0..<?m])"
    unfolding selection_def Let_def range
    using selection_loop_pairs [OF assms(3) bound, of target "[]"] by simp
  show ?thesis
    unfolding run by (simp add: Let_def)
qed

theorem selection_tournament_witness:
  "even (length [[(0, 4, 6)], [(60, 64, 67 :: int)]])
   \<and> is_order [1, 0] (length [[(0, 4, 6)], [(60, 64, 67 :: int)]])
   \<and> length [''C'', ''D'', ''E'', ''F'', ''G'', ''A'', ''B''] = 7
   \<and> fitness_value [(60, 64, 67)] [60] [''C'', ''D'', ''E'', ''F'', ''G'', ''A'', ''B'']
       > fitness_value [(0, 4, 6)] [60] [''C'', ''D'', ''E'', ''F'', ''G'', ''A'', ''B'']
   \<and> selection [1, 0] [[(0, 4, 6)], [(60, 64, 67)]] [60]
        [''C'', ''D'', ''E'', ''F'', ''G'', ''A'', ''B''] = Inr [[(60, 64, 67)]]"
proof -
  let ?scale = "[''C'', ''D'', ''E'', ''F'', ''G'', ''A'', ''B'']"
  let ?x = "[(60, 64, 67)] :: individual"
  let ?y = "[(0, 4, 6)] :: individual"
  have e: "even (length [?y, ?x])"
    by simp
  have o: "is_order [1, 0] (length [?y, ?x])"
    by (simp add: is_order_def upt_rec)
  have l: "length ?scale = 7"
    by simp
  have f: "fitness_value ?x [60] ?scale = 225" "fitness_value ?y [60] ?scale = - 100"
    by (simp_all add: fitness_value_def fitness_examples)
  obtain winners where w: "selection [1, 0] [?y, ?x] [60] ?scale = Inr winners"
    "length winners = 1" "winners ! 0 = ?x"
    using selection_tournament [OF e o l, of "[60]"] f
    by (auto simp: Let_def permutation_def)
  have "winners = [?x]"
    using w(2,3) by (cases winners) simp_all
  then show ?thesis
    using w(1) e o l f by simp
qed

lemma best_loop_invariant:
  assumes "length pc = 7"
  shows "\<exists>r. best_loop xs target pc b m = Inr r
           \<and> ((\<exists>x \<in> set xs. m < fitness_value x target pc) \<longrightarrow>
                 r \<in> set xs \<and> m < fitness_value r target pc
                 \<and> (\<forall>x \<in> set xs. fitness_value x target pc \<le> fitness_value r target pc))
           \<and> ((\<forall>x \<in> set xs. fitness_value x target pc \<le> m) \<longrightarrow> r = b)"
proof (induction xs arbitrary: b m)
  case Nil
  show ?case by simp
next
  case (Cons x xs)
  let ?f = "fitness_value x target pc"
  show ?case
  proof (cases "m < ?f")
    case True
    obtain r where r: "best_loop xs target pc x ?f = Inr r"
      "(\<exists>y \<in> set xs. ?f < fitness_value y target pc) \<longrightarrow>
         r \<in> set xs \<and> ?f < fitness_value r target pc
         \<and> (\<forall>y \<in> set xs. fitness_value y target pc \<le> fitness_value r target pc)"
      "(\<forall>y \<in> set xs. fitness_value y target pc \<le> ?f) \<longrightarrow> r = x"
      using Cons.IH [of x ?f] by blast
    have run: "best_loop (x # xs) target pc b m = Inr r"
      using True r(1) by (simp add: individual_fitness_total [OF assms])
    show ?thesis
    proof (cases "\<exists>y \<in> set xs. ?f < fitness_value y target pc")
      case True
      then show ?thesis
        using run r(2) \<open>m < ?f\<close> by (auto intro: less_imp_le order.strict_trans)
    next
      case False
      then have "r = x"
        using r(3) by (auto simp: not_less)
      then show ?thesis
        using run False \<open>m < ?f\<close> by (auto simp: not_less)
    qed
  next
    case False
    obtain r where r: "best_loop xs target pc b m = Inr r"
      "(\<exists>y \<in> set xs. m < fitness_value y target pc) \<longrightarrow>
         r \<in> set xs \<and> m < fitness_value r target pc
         \<and> (\<forall>y \<in> set xs. fitness_value y target pc \<le> fitness_value r target pc)"
      "(\<forall>y \<in> set xs. fitness_value y target pc \<le> m) \<longrightarrow> r = b"
      using Cons.IH [of b m] by blast
    have run: "best_loop (x # xs) target pc b m = Inr r"
      using False r(1) by (simp add: individual_fitness_total [OF assms])
    show ?thesis
      using run r(2,3) False by (auto simp: not_less)
  qed
qed

text \<open>
  Claim C1. For every final population, target and scale (of seven notes),
  \<^verbatim>\<open>get_best_individual\<close> returns: when some individual has a fitness above 0, a member of the
  population whose fitness is above 0 and not below that of any other member; and when every
  individual has fitness at most 0, the empty sequence, of length 0, which differs from the
  target's length whenever the target has slots, and is then no member of a population whose
  individuals have the target's length.
\<close>

theorem get_best_individual_floor:
  assumes "length possible_chords = 7"
  shows "\<exists>best.
           get_best_individual population average possible_chords = Inr best
         \<and> ((\<exists>x \<in> set population. 0 < fitness_value x average possible_chords) \<longrightarrow>
               best \<in> set population
             \<and> 0 < fitness_value best average possible_chords
             \<and> (\<forall>x \<in> set population.
                   fitness_value x average possible_chords
                     \<le> fitness_value best average possible_chords))
         \<and> ((\<forall>x \<in> set population. fitness_value x average possible_chords \<le> 0) \<longrightarrow>
               best = [] \<and> length best = 0
             \<and> (average \<noteq> [] \<longrightarrow> length best \<noteq> length average)
             \<and> (average \<noteq> [] \<and> (\<forall>x \<in> set population. length x = length average) \<longrightarrow>
                   best \<notin> set population))"
proof -
  obtain r where r: "best_loop population average possible_chords [] 0 = Inr r"
    "(\<exists>x \<in> set population. 0 < fitness_value x average possible_chords) \<longrightarrow>
       r \<in> set population \<and> 0 < fitness_value r average possible_chords
       \<and> (\<forall>x \<in> set population.
             fitness_value x average possible_chords \<le> fitness_value r average possible_chords)"
    "(\<forall>x \<in> set population. fitness_value x average possible_chords \<le> 0) \<longrightarrow> r = []"
    using best_loop_invariant [OF assms, of population average "[]" 0] by blast
  have "(\<forall>x \<in> set population. fitness_value x average possible_chords \<le> 0) \<longrightarrow>
          r = [] \<and> length r = 0
        \<and> (average \<noteq> [] \<longrightarrow> length r \<noteq> length average)
        \<and> (average \<noteq> [] \<and> (\<forall>x \<in> set population. length x = length average) \<longrightarrow>
              r \<notin> set population)"
    using r(3) by auto
  then show ?thesis
    unfolding get_best_individual_def using r(1,2) by blast
qed

theorem get_best_individual_floor_witness:
  "length [''C'', ''D'', ''E'', ''F'', ''G'', ''A'', ''B''] = 7
   \<and> fitness_value [(0, 4, 6)] [60] [''C'', ''D'', ''E'', ''F'', ''G'', ''A'', ''B''] \<le> 0
   \<and> 0 < fitness_value [(60, 64, 67)] [60] [''C'', ''D'', ''E'', ''F'', ''G'', ''A'', ''B'']
   \<and> get_best_individual [[(0, 4, 6)]] [60] [''C'', ''D'', ''E'', ''F'', ''G'', ''A'', ''B''] = Inr []
   \<and> get_best_individual [[(0, 4, 6)], [(60, 64, 67)]] [60]
        [''C'', ''D'', ''E'', ''F'', ''G'', ''A'', ''B''] = Inr [(60, 64, 67)]"
proof -
  let ?scale = "[''C'', ''D'', ''E'', ''F'', ''G'', ''A'', ''B'']"
  let ?x = "[(60, 64, 67)] :: individual"
  let ?y = "[(0, 4, 6)] :: individual"
  have l: "length ?scale = 7"
    by simp
  have f: "fitness_value ?x [60] ?scale = 225" "fitness_value ?y [60] ?scale = - 100"
    by (simp_all add: fitness_value_def fitness_examples)
  have none: "get_best_individual [?y] [60] ?scale = Inr []"
    using get_best_individual_floor [OF l, of "[?y]" "[60]"] f by auto
  have some: "get_best_individual [?y, ?x] [60] ?scale = Inr ?x"
    using get_best_individual_floor [OF l, of "[?y, ?x]" "[60]"] f by auto
  show ?thesis
    using l f none some by simp
qed

section \<open>Properties of crossover and mutation\<close>

lemma mutation_step_frame:
  "length (mutation_step draw a c h) = length h"
  "b \<noteq> a \<Longrightarrow> mutation_step draw a c h ! b = h ! b"
  by (simp_all add: mutation_step_def assign_def Let_def)

lemma mutation_loop_frame:
  "length (mutation_loop draw a cs h) = length h"
  "b \<noteq> a \<Longrightarrow> mutation_loop draw a cs h ! b = h ! b"
  by (induction cs arbitrary: h) (simp_all add: mutation_step_frame)

lemma mutation_step_local:
  "a < length h \<Longrightarrow> [mutation_step draw a c h ! a] = mutation_step draw 0 c [h ! a]"
  by (simp add: mutation_step_def assign_def Let_def)

lemma mutation_loop_local:
  "a < length h \<Longrightarrow> mutation_loop draw a cs h ! a = mutation_loop draw 0 cs [h ! a] ! 0"
proof (induction cs arbitrary: h)
  case Nil
  show ?case by simp
next
  case (Cons c cs)
  have "mutation_loop draw a (c # cs) h ! a
      = mutation_loop draw 0 cs [mutation_step draw a c h ! a] ! 0"
    using Cons.IH [of "mutation_step draw a c h"] Cons.prems
    by (simp add: mutation_step_frame)
  then show ?case
    by (simp add: mutation_step_local [OF Cons.prems])
qed

lemma mutation_loop_at:
  assumes "a < length h"
  shows "mutation_loop draw a [0..<length (h ! a)] h ! a = mutated draw (h ! a)"
  unfolding mutated_def mutation_def by (simp add: mutation_loop_local [OF assms])

lemma gene_step_store:
  assumes "c1 < length h" and "c2 < length h" and "c1 \<noteq> c2"
      and "p1 \<noteq> c1" and "p1 \<noteq> c2" and "p2 \<noteq> c1" and "p2 \<noteq> c2"
      and "i < length (h ! p1)" and "i < length (h ! p2)"
  shows "\<exists>h'. gene_step pr p1 p2 c1 c2 i h = Inr h'
           \<and> length h' = length h
           \<and> (\<forall>b. b \<noteq> c1 \<longrightarrow> b \<noteq> c2 \<longrightarrow> h' ! b = h ! b)
           \<and> h' ! c1 = h ! c1 @ [if pr i \<ge> 0.5 then h ! p1 ! i else h ! p2 ! i]
           \<and> h' ! c2 = h ! c2 @ [if pr i \<ge> 0.5 then h ! p2 ! i else h ! p1 ! i]"
  using assms
  by (simp add: gene_step_def py_index_nat append_to_def)

lemma gene_loop_store:
  assumes "c1 < length h" and "c2 < length h" and "c1 \<noteq> c2"
      and "p1 \<noteq> c1" and "p1 \<noteq> c2" and "p2 \<noteq> c1" and "p2 \<noteq> c2"
      and "\<forall>i \<in> set is. i < length (h ! p1) \<and> i < length (h ! p2)"
  shows "\<exists>h'. gene_loop pr p1 p2 c1 c2 is h = Inr h'
           \<and> length h' = length h
           \<and> (\<forall>b. b \<noteq> c1 \<longrightarrow> b \<noteq> c2 \<longrightarrow> h' ! b = h ! b)
           \<and> h' ! c1 = h ! c1 @ map (\<lambda>i. if pr i \<ge> 0.5 then h ! p1 ! i else h ! p2 ! i) is
           \<and> h' ! c2 = h ! c2 @ map (\<lambda>i. if pr i \<ge> 0.5 then h ! p2 ! i else h ! p1 ! i) is"
  using assms(1,2,8)
proof (induction "is" arbitrary: h)
  case Nil
  show ?case by simp
next
  case (Cons i "is")
  have i: "i < length (h ! p1)" "i < length (h ! p2)"
    using Cons.prems(3) by simp_all
  obtain h1 where h1: "gene_step pr p1 p2 c1 c2 i h = Inr h1"
    "length h1 = length h"
    "\<forall>b. b \<noteq> c1 \<longrightarrow> b \<noteq> c2 \<longrightarrow> h1 ! b = h ! b"
    "h1 ! c1 = h ! c1 @ [if pr i \<ge> 0.5 then h ! p1 ! i else h ! p2 ! i]"
    "h1 ! c2 = h ! c2 @ [if pr i \<ge> 0.5 then h ! p2 ! i else h ! p1 ! i]"
    using gene_step_store [OF Cons.prems(1,2) assms(3-7) i, of pr] by blast
  have same: "h1 ! p1 = h ! p1" "h1 ! p2 = h ! p2"
    using h1(3) assms(4-7) by simp_all
  have rest_ok: "\<forall>j \<in> set is. j < length (h1 ! p1) \<and> j < length (h1 ! p2)"
    using Cons.prems(3) same by simp
  obtain h2 where h2: "gene_loop pr p1 p2 c1 c2 is h1 = Inr h2"
    "length h2 = length h1"
    "\<forall>b. b \<noteq> c1 \<longrightarrow> b \<noteq> c2 \<longrightarrow> h2 ! b = h1 ! b"
    "h2 ! c1 = h1 ! c1 @ map (\<lambda>i. if pr i \<ge> 0.5 then h1 ! p1 ! i else h1 ! p2 ! i) is"
    "h2 ! c2 = h1 ! c2 @ map (\<lambda>i. if pr i \<ge> 0.5 then h1 ! p2 ! i else h1 ! p1 ! i) is"
    using Cons.IH [of h1] Cons.prems(1,2) h1(2) rest_ok by auto
  show ?case
    using h1 h2 same by simp
qed

lemma build_children_store:
  assumes "p1 < length h" and "p2 < length h" and "length (h ! p1) \<le> length (h ! p2)"
  shows "\<exists>h'. build_children pr p1 p2 h = Inr (length h, Suc (length h), h')
           \<and> length h' = length h + 2
           \<and> (\<forall>b < length h. h' ! b = h ! b)
           \<and> h' ! length h =
                map (\<lambda>i. if pr i \<ge> 0.5 then h ! p1 ! i else h ! p2 ! i) [0..<length (h ! p1)]
           \<and> h' ! Suc (length h) =
                map (\<lambda>i. if pr i \<ge> 0.5 then h ! p2 ! i else h ! p1 ! i) [0..<length (h ! p1)]"
proof -
  let ?h2 = "h @ [[], []]"
  let ?c1 = "length h"
  let ?c2 = "Suc (length h)"
  have old: "?h2 ! p1 = h ! p1" "?h2 ! p2 = h ! p2"
    using assms(1,2) by (simp_all add: nth_append)
  have new: "?h2 ! ?c1 = []" "?h2 ! ?c2 = []"
    by (simp_all add: nth_append)
  have range: "\<forall>i \<in> set [0..<length (h ! p1)]. i < length (?h2 ! p1) \<and> i < length (?h2 ! p2)"
    using assms(3) old by simp
  obtain h' where h': "gene_loop pr p1 p2 ?c1 ?c2 [0..<length (h ! p1)] ?h2 = Inr h'"
    "length h' = length ?h2"
    "\<forall>b. b \<noteq> ?c1 \<longrightarrow> b \<noteq> ?c2 \<longrightarrow> h' ! b = ?h2 ! b"
    "h' ! ?c1 = ?h2 ! ?c1 @
       map (\<lambda>i. if pr i \<ge> 0.5 then ?h2 ! p1 ! i else ?h2 ! p2 ! i) [0..<length (h ! p1)]"
    "h' ! ?c2 = ?h2 ! ?c2 @
       map (\<lambda>i. if pr i \<ge> 0.5 then ?h2 ! p2 ! i else ?h2 ! p1 ! i) [0..<length (h ! p1)]"
    using gene_loop_store [of ?c1 ?h2 ?c2 p1 p2 "[0..<length (h ! p1)]" pr] assms(1,2) range
    by auto
  have run: "build_children pr p1 p2 h = Inr (?c1, ?c2, h')"
    using h'(1) old by (simp add: build_children_def alloc_def)
  have frame: "\<forall>b < length h. h' ! b = h ! b"
    using h'(3) by (simp add: nth_append)
  show ?thesis
    using run h'(2,4,5) frame old new by simp
qed

lemma children_of_value:
  assumes "length x \<le> length y"
  shows "children_of pr x y =
           Inr (map (\<lambda>i. if pr i \<ge> 0.5 then x ! i else y ! i) [0..<length x],
                map (\<lambda>i. if pr i \<ge> 0.5 then y ! i else x ! i) [0..<length x])"
proof -
  obtain h' where h': "build_children pr 0 1 [x, y] = Inr (length [x, y], Suc (length [x, y]), h')"
    "h' ! length [x, y] =
       map (\<lambda>i. if pr i \<ge> 0.5 then [x, y] ! 0 ! i else [x, y] ! 1 ! i) [0..<length ([x, y] ! 0)]"
    "h' ! Suc (length [x, y]) =
       map (\<lambda>i. if pr i \<ge> 0.5 then [x, y] ! 1 ! i else [x, y] ! 0 ! i) [0..<length ([x, y] ! 0)]"
    using build_children_store [of 0 "[x, y]" 1 pr] assms by auto
  show ?thesis
    unfolding children_of_def using h' by simp
qed

lemma mate_store:
  assumes "Suc parent < n" and "n \<le> length h"
      and "length (h ! parent) \<le> length (h ! Suc parent)"
  shows "\<exists>h'. mate draw n parent np h =
                Inr (np @ [parent, Suc parent, length h, Suc (length h)], h')
           \<and> length h' = length h + 2
           \<and> (\<forall>b < length h. h' ! b = h ! b)
           \<and> h' ! length h =
                mutated (first_child (draw parent))
                  (map (\<lambda>i. if coin (draw parent) i \<ge> 0.5 then h ! parent ! i
                             else h ! Suc parent ! i) [0..<length (h ! parent)])
           \<and> h' ! Suc (length h) =
                mutated (second_child (draw parent))
                  (map (\<lambda>i. if coin (draw parent) i \<ge> 0.5 then h ! Suc parent ! i
                             else h ! parent ! i) [0..<length (h ! parent)])"
proof -
  let ?c1 = "length h"
  let ?c2 = "Suc (length h)"
  have p: "parent < length h" "Suc parent < length h"
    using assms(1,2) by simp_all
  obtain h1 where h1:
    "build_children (coin (draw parent)) parent (Suc parent) h = Inr (?c1, ?c2, h1)"
    "length h1 = length h + 2"
    "\<forall>b < length h. h1 ! b = h ! b"
    "h1 ! ?c1 = map (\<lambda>i. if coin (draw parent) i \<ge> 0.5 then h ! parent ! i
                          else h ! Suc parent ! i) [0..<length (h ! parent)]"
    "h1 ! ?c2 = map (\<lambda>i. if coin (draw parent) i \<ge> 0.5 then h ! Suc parent ! i
                          else h ! parent ! i) [0..<length (h ! parent)]"
    using build_children_store [OF p assms(3), of "coin (draw parent)"] by blast
  define h2 where "h2 = mutation_loop (first_child (draw parent)) ?c1 [0..<length (h1 ! ?c1)] h1"
  define h3 where "h3 = mutation_loop (second_child (draw parent)) ?c2 [0..<length (h2 ! ?c2)] h2"
  have len2: "length h2 = length h1"
    unfolding h2_def by (rule mutation_loop_frame(1))
  have len3: "length h3 = length h2"
    unfolding h3_def by (rule mutation_loop_frame(1))
  have at2: "h2 ! ?c1 = mutated (first_child (draw parent)) (h1 ! ?c1)"
    unfolding h2_def using h1(2) by (intro mutation_loop_at) simp
  have frame2: "b \<noteq> ?c1 \<Longrightarrow> h2 ! b = h1 ! b" for b
    unfolding h2_def by (rule mutation_loop_frame(2))
  have at3: "h3 ! ?c2 = mutated (second_child (draw parent)) (h2 ! ?c2)"
    unfolding h3_def using h1(2) len2 by (intro mutation_loop_at) simp
  have frame3: "b \<noteq> ?c2 \<Longrightarrow> h3 ! b = h2 ! b" for b
    unfolding h3_def by (rule mutation_loop_frame(2))
  have run: "mate draw n parent np h = Inr (np @ [parent, Suc parent, ?c1, ?c2], h3)"
    using assms(1) h1(1)
    by (simp add: mate_def mutation_def Let_def h2_def h3_def)
  have old: "\<forall>b < length h. h3 ! b = h ! b"
    using frame2 frame3 h1(3) by simp
  have c1: "h3 ! ?c1 = mutated (first_child (draw parent)) (h1 ! ?c1)"
    using frame3 [of ?c1] at2 by simp
  have c2: "h3 ! ?c2 = mutated (second_child (draw parent)) (h1 ! ?c2)"
    using frame2 [of ?c2] at3 by simp
  show ?thesis
    using run len2 len3 h1(2) old c1 c2 h1(4,5) by simp
qed

lemma crossover_loop_append:
  "crossover_loop draw n (xs @ ys) np h =
     (case crossover_loop draw n xs np h of
        Inl e \<Rightarrow> Inl e
      | Inr (np', h') \<Rightarrow> crossover_loop draw n ys np' h')"
  by (induction xs arbitrary: np h) (simp_all split: sum.splits prod.splits)

lemma concat_blocks_length:
  assumes "\<forall>k. length (f k) = 4"
  shows "length (concat (map f [0..<m])) = 4 * m"
  using assms by (induction m) simp_all

lemma concat_blocks_nth:
  assumes "\<forall>k. length (f k) = 4" and "k < m" and "j < 4"
  shows "concat (map f [0..<m]) ! (4 * k + j) = f k ! j"
  using assms(2)
proof (induction m)
  case 0
  then show ?case by simp
next
  case (Suc m)
  show ?case
  proof (cases "k < m")
    case True
    then have "4 * k + j < length (concat (map f [0..<m]))"
      using assms(3) by (simp add: concat_blocks_length [OF assms(1)])
    then show ?thesis
      using Suc.IH [OF True] by (simp add: nth_append)
  next
    case False
    then have "k = m"
      using Suc.prems by simp
    then show ?thesis
      by (simp add: nth_append concat_blocks_length [OF assms(1)])
  qed
qed

lemma crossover_loop_pairs:
  assumes "2 * m \<le> n" and "length h0 = n" and "\<forall>b < n. length (h0 ! b) = len"
  shows "\<exists>np h. crossover_loop draw n [0..<2 * m] [] h0 = Inr (np, h)
           \<and> length h = n + 2 * m
           \<and> (\<forall>b < n. h ! b = h0 ! b)
           \<and> (\<forall>a \<in> set np. a < length h)
           \<and> map (\<lambda>a. h ! a) np =
               concat (map (\<lambda>k.
                 [h0 ! (2 * k),
                  h0 ! Suc (2 * k),
                  mutated (first_child (draw (2 * k)))
                    (map (\<lambda>i. if coin (draw (2 * k)) i \<ge> 0.5 then h0 ! (2 * k) ! i
                               else h0 ! Suc (2 * k) ! i) [0..<len]),
                  mutated (second_child (draw (2 * k)))
                    (map (\<lambda>i. if coin (draw (2 * k)) i \<ge> 0.5 then h0 ! Suc (2 * k) ! i
                               else h0 ! (2 * k) ! i) [0..<len])]) [0..<m])"
  using assms(1)
proof (induction m)
  case 0
  show ?case using assms(2) by simp
next
  case (Suc m)
  let ?quad = "\<lambda>k.
                 [h0 ! (2 * k),
                  h0 ! Suc (2 * k),
                  mutated (first_child (draw (2 * k)))
                    (map (\<lambda>i. if coin (draw (2 * k)) i \<ge> 0.5 then h0 ! (2 * k) ! i
                               else h0 ! Suc (2 * k) ! i) [0..<len]),
                  mutated (second_child (draw (2 * k)))
                    (map (\<lambda>i. if coin (draw (2 * k)) i \<ge> 0.5 then h0 ! Suc (2 * k) ! i
                               else h0 ! (2 * k) ! i) [0..<len])]"
  obtain np h where ih: "crossover_loop draw n [0..<2 * m] [] h0 = Inr (np, h)"
    "length h = n + 2 * m"
    "\<forall>b < n. h ! b = h0 ! b"
    "\<forall>a \<in> set np. a < length h"
    "map (\<lambda>a. h ! a) np = concat (map ?quad [0..<m])"
    using Suc by auto
  have k: "Suc (2 * m) < n" "2 * m < n"
    using Suc.prems by simp_all
  have nh: "n \<le> length h"
    using ih(2) by simp
  have par: "h ! (2 * m) = h0 ! (2 * m)" "h ! Suc (2 * m) = h0 ! Suc (2 * m)"
    using ih(3) k by simp_all
  have lens: "length (h ! (2 * m)) = len" "length (h ! Suc (2 * m)) = len"
    using par assms(3) k by simp_all
  have le: "length (h ! (2 * m)) \<le> length (h ! Suc (2 * m))"
    using lens by simp
  obtain h' where m: "mate draw n (2 * m) np h =
        Inr (np @ [2 * m, Suc (2 * m), length h, Suc (length h)], h')"
    "length h' = length h + 2"
    "\<forall>b < length h. h' ! b = h ! b"
    "h' ! length h =
       mutated (first_child (draw (2 * m)))
         (map (\<lambda>i. if coin (draw (2 * m)) i \<ge> 0.5 then h ! (2 * m) ! i
                    else h ! Suc (2 * m) ! i) [0..<length (h ! (2 * m))])"
    "h' ! Suc (length h) =
       mutated (second_child (draw (2 * m)))
         (map (\<lambda>i. if coin (draw (2 * m)) i \<ge> 0.5 then h ! Suc (2 * m) ! i
                    else h ! (2 * m) ! i) [0..<length (h ! (2 * m))])"
    using mate_store [OF k(1) nh le, of draw np] by blast
  have h': "mate draw n (2 * m) np h =
        Inr (np @ [2 * m, Suc (2 * m), length h, Suc (length h)], h')"
    "length h' = length h + 2"
    "\<forall>b < length h. h' ! b = h ! b"
    "h' ! length h = ?quad m ! 2"
    "h' ! Suc (length h) = ?quad m ! 3"
    using m(1,2,3) apply simp_all
    using m(4,5) unfolding lens unfolding par by simp_all
  have split: "[0..<2 * Suc m] = [0..<2 * m] @ [2 * m, Suc (2 * m)]"
    by simp
  have odd: "Suc (2 * m) mod 2 \<noteq> 0" "(2 * m) mod 2 = 0"
    by presburger+
  have run: "crossover_loop draw n [0..<2 * Suc m] [] h0 =
      Inr (np @ [2 * m, Suc (2 * m), length h, Suc (length h)], h')"
    unfolding split crossover_loop_append ih(1)
    using odd h'(1) by (simp del: mult_Suc_right)
  have old: "map (\<lambda>a. h' ! a) np = map (\<lambda>a. h ! a) np"
    using ih(4) h'(3) by simp
  have parents': "h' ! (2 * m) = h0 ! (2 * m)" "h' ! Suc (2 * m) = h0 ! Suc (2 * m)"
    using h'(3) par k nh by simp_all
  have vals: "map (\<lambda>a. h' ! a) (np @ [2 * m, Suc (2 * m), length h, Suc (length h)])
      = concat (map ?quad [0..<Suc m])"
    using old ih(5) parents' h'(4,5) by simp
  have addrs: "\<forall>a \<in> set (np @ [2 * m, Suc (2 * m), length h, Suc (length h)]). a < length h'"
    using ih(4) h'(2) k nh by auto
  have frame: "\<forall>b < n. h' ! b = h0 ! b"
    using h'(3) ih(3) nh by simp
  have len': "length h' = n + 2 * Suc m"
    using h'(2) ih(2) by simp
  show ?case
    using run len' frame addrs vals by blast
qed

lemma is_order_set: "is_order order n \<Longrightarrow> set order = {0..<n}"
proof -
  assume "is_order order n"
  then have "set (sort order) = set [0..<n]"
    unfolding is_order_def by simp
  then show ?thesis by simp
qed

text \<open>
  Claim C5. For every selected population of even size whose individuals have one length,
  \<^verbatim>\<open>crossover\<close> returns a population of exactly twice the size. For the \<open>k\<close>-th pair of the
  permuted population the result holds, in this order, the two parents with the values they
  had before the call (the mutation of the children does not reach them) and the two children
  after mutation. The children as built before mutation have the parents' length, and at
  every gene index one child holds the first parent's gene and the other the second parent's:
  the first child takes the first parent's gene exactly when the coin is at least 0.5.
\<close>

theorem crossover_parents_and_children:
  assumes "even (length population)"
      and "is_order order (length population)"
      and "\<forall>x \<in> set population. length x = len"
  shows "\<exists>new_population.
           crossover order draw population = Inr new_population
         \<and> length new_population = 2 * length population
         \<and> (\<forall>k < length population div 2.
              let p1 = permutation order population ! (2 * k);
                  p2 = permutation order population ! (2 * k + 1);
                  d = draw (2 * k)
              in new_population ! (4 * k) = p1
               \<and> new_population ! (4 * k + 1) = p2
               \<and> (\<exists>c1 c2.
                     children_of (coin d) p1 p2 = Inr (c1, c2)
                   \<and> length c1 = length p1 \<and> length c2 = length p1
                   \<and> (\<forall>i < length p1.
                         if coin d i \<ge> 0.5 then c1 ! i = p1 ! i \<and> c2 ! i = p2 ! i
                         else c1 ! i = p2 ! i \<and> c2 ! i = p1 ! i)
                   \<and> new_population ! (4 * k + 2) = mutated (first_child d) c1
                   \<and> new_population ! (4 * k + 3) = mutated (second_child d) c2))"
proof -
  let ?P = "permutation order population"
  let ?n = "length population"
  let ?m = "?n div 2"
  let ?c1 = "\<lambda>k. map (\<lambda>i. if coin (draw (2 * k)) i \<ge> 0.5 then ?P ! (2 * k) ! i
                            else ?P ! Suc (2 * k) ! i) [0..<len]"
  let ?c2 = "\<lambda>k. map (\<lambda>i. if coin (draw (2 * k)) i \<ge> 0.5 then ?P ! Suc (2 * k) ! i
                            else ?P ! (2 * k) ! i) [0..<len]"
  let ?quad = "\<lambda>k. [?P ! (2 * k), ?P ! Suc (2 * k),
                     mutated (first_child (draw (2 * k))) (?c1 k),
                     mutated (second_child (draw (2 * k))) (?c2 k)]"
  have lenP: "length ?P = ?n"
    by (simp add: permutation_def is_order_length [OF assms(2)])
  have two: "2 * ?m = ?n"
    using assms(1) by simp
  have member: "?P ! b \<in> set population" if "b < ?n" for b
  proof -
    have "order ! b \<in> set order"
      using that is_order_length [OF assms(2)] by simp
    then have "order ! b < ?n"
      using is_order_set [OF assms(2)] by simp
    then show ?thesis
      using that is_order_length [OF assms(2)] by (simp add: permutation_def)
  qed
  have lens: "\<forall>b < ?n. length (?P ! b) = len"
    using member assms(3) by blast
  have bound: "2 * ?m \<le> ?n"
    using two by simp
  obtain np h where run: "crossover_loop draw ?n [0..<2 * ?m] [] ?P = Inr (np, h)"
    and vals: "map (\<lambda>a. h ! a) np = concat (map ?quad [0..<?m])"
    using crossover_loop_pairs [OF bound lenP lens, of draw] by blast
  have result: "crossover order draw population = Inr (concat (map ?quad [0..<?m]))"
    unfolding crossover_def Let_def lenP using run vals by (simp add: two)
  have four: "\<forall>k. length (?quad k) = 4"
    by simp
  have size: "length (concat (map ?quad [0..<?m])) = 2 * ?n"
    using concat_blocks_length [OF four, of ?m] two by simp
  have pair: "let p1 = ?P ! (2 * k); p2 = ?P ! (2 * k + 1); d = draw (2 * k)
      in concat (map ?quad [0..<?m]) ! (4 * k) = p1
       \<and> concat (map ?quad [0..<?m]) ! (4 * k + 1) = p2
       \<and> (\<exists>c1 c2.
             children_of (coin d) p1 p2 = Inr (c1, c2)
           \<and> length c1 = length p1 \<and> length c2 = length p1
           \<and> (\<forall>i < length p1.
                 if coin d i \<ge> 0.5 then c1 ! i = p1 ! i \<and> c2 ! i = p2 ! i
                 else c1 ! i = p2 ! i \<and> c2 ! i = p1 ! i)
           \<and> concat (map ?quad [0..<?m]) ! (4 * k + 2) = mutated (first_child d) c1
           \<and> concat (map ?quad [0..<?m]) ! (4 * k + 3) = mutated (second_child d) c2)"
    if k: "k < ?m" for k
  proof -
    let ?p1 = "?P ! (2 * k)"
    let ?p2 = "?P ! (2 * k + 1)"
    let ?d = "draw (2 * k)"
    let ?R = "concat (map ?quad [0..<?m])"
    have in_range: "2 * k < ?n" "2 * k + 1 < ?n"
      using k two by simp_all
    have l1: "length ?p1 = len" and l2: "length ?p2 = len"
      using lens in_range by blast+
    have e0: "?R ! (4 * k) = ?p1"
      using concat_blocks_nth [OF four k, of 0] by simp
    have e1: "?R ! (4 * k + 1) = ?p2"
      using concat_blocks_nth [OF four k, of 1] by simp
    have e2: "?R ! (4 * k + 2) = mutated (first_child ?d) (?c1 k)"
      using concat_blocks_nth [OF four k, of 2] by simp
    have e3: "?R ! (4 * k + 3) = mutated (second_child ?d) (?c2 k)"
      using concat_blocks_nth [OF four k, of 3] by (simp add: numeral_3_eq_3)
    have ch: "children_of (coin ?d) ?p1 ?p2 = Inr (?c1 k, ?c2 k)"
      using children_of_value [of ?p1 ?p2 "coin ?d"] l1 l2 by simp
    have lc: "length (?c1 k) = length ?p1" "length (?c2 k) = length ?p1"
      using l1 by simp_all
    have genes: "\<forall>i < length ?p1.
        if coin ?d i \<ge> 0.5
        then ?c1 k ! i = ?p1 ! i \<and> ?c2 k ! i = ?p2 ! i
        else ?c1 k ! i = ?p2 ! i \<and> ?c2 k ! i = ?p1 ! i"
      using l1 by simp
    show ?thesis
      unfolding Let_def using e0 e1 ch lc genes e2 e3 by blast
  qed
  show ?thesis
    using result size pair by blast
qed

theorem crossover_parents_and_children_witness:
  "even (length [[(60, 64, 67), (1, 2, 3)], [(0, 4, 6), (4, 5, 6 :: int)]])
   \<and> is_order [1, 0] (length [[(60, 64, 67), (1, 2, 3)], [(0, 4, 6), (4, 5, 6 :: int)]])
   \<and> length [(60, 64, 67), (1, 2, 3 :: int)] = 2
   \<and> length [(0, 4, 6), (4, 5, 6 :: int)] = 2
   \<and> children_of (\<lambda>i. if i = 0 then 1 else 0) [(0, 4, 6), (4, 5, 6)] [(60, 64, 67), (1, 2, 3)]
        = Inr ([(0, 4, 6), (1, 2, 3)], [(60, 64, 67), (4, 5, 6)])
   \<and> crossover [1, 0]
        (\<lambda>p. \<lparr>coin = (\<lambda>i. if i = 0 then 1 else 0),
              first_child = (\<lambda>i. \<lparr>uniform = (if i = 1 then 0 else 1),
                                   randint = (\<lambda>r. 5), choice = 0\<rparr>),
              second_child = (\<lambda>i. \<lparr>uniform = 1, randint = (\<lambda>r. 5), choice = 0\<rparr>)\<rparr>)
        [[(60, 64, 67), (1, 2, 3)], [(0, 4, 6), (4, 5, 6)]]
      = Inr [[(0, 4, 6), (4, 5, 6)], [(60, 64, 67), (1, 2, 3)],
             [(0, 4, 6), (5, 9, 12)], [(60, 64, 67), (4, 5, 6)]]"
proof -
  let ?x = "[(60, 64, 67), (1, 2, 3)] :: individual"
  let ?y = "[(0, 4, 6), (4, 5, 6)] :: individual"
  let ?pr = "(\<lambda>i. if i = 0 then 1 else 0) :: nat \<Rightarrow> real"
  let ?d1 = "(\<lambda>i. \<lparr>uniform = (if i = 1 then 0 else 1), randint = (\<lambda>r. 5), choice = 0\<rparr>)
               :: nat \<Rightarrow> gene_draw"
  let ?d2 = "(\<lambda>i. \<lparr>uniform = 1, randint = (\<lambda>r. 5), choice = 0\<rparr>) :: nat \<Rightarrow> gene_draw"
  let ?draw = "(\<lambda>p. \<lparr>coin = ?pr, first_child = ?d1, second_child = ?d2\<rparr>) :: nat \<Rightarrow> pair_draw"
  have e: "even (length [?x, ?y])"
    by simp
  have o: "is_order [1, 0] (length [?x, ?y])"
    by (simp add: is_order_def upt_rec)
  have l: "\<forall>z \<in> set [?x, ?y]. length z = 2"
    by simp
  have two: "[0..<2] = [0, 1]"
    by (simp add: upt_rec)
  have ch: "children_of ?pr ?y ?x = Inr ([(0, 4, 6), (1, 2, 3)], [(60, 64, 67), (4, 5, 6)])"
    using children_of_value [of ?y ?x ?pr] by (simp add: two)
  have m1: "mutated ?d1 [(0, 4, 6), (1, 2, 3)] = [(0, 4, 6), (5, 9, 12)]"
    by (simp add: mutated_def mutation_def mutation_step_def assign_def random_chord_def
        major_triad_def two Let_def)
  have m2: "mutated ?d2 [(60, 64, 67), (4, 5, 6)] = [(60, 64, 67), (4, 5, 6)]"
    by (simp add: mutated_def mutation_def mutation_step_def assign_def two Let_def)
  obtain np where np: "crossover [1, 0] ?draw [?x, ?y] = Inr np" "length np = 4"
    "np ! 0 = ?y" "np ! Suc 0 = ?x"
    "np ! Suc (Suc 0) = [(0, 4, 6), (5, 9, 12)]" "np ! 3 = [(60, 64, 67), (4, 5, 6)]"
    using crossover_parents_and_children [OF e o l, of ?draw] ch m1 m2
    by (auto simp: Let_def permutation_def)
  obtain a b c d where abcd: "np = [a, b, c, d]"
    using np(2) by (auto simp: numeral_eq_Suc length_Suc_conv)
  have "np = [?y, ?x, [(0, 4, 6), (5, 9, 12)], [(60, 64, 67), (4, 5, 6)]]"
    using np(3-6) unfolding abcd by (simp add: numeral_3_eq_3)
  then show ?thesis
    using np(1) e o ch by simp
qed

section \<open>The output encoder on rests\<close>

text \<open>
  Claim C8 says that a rest chord produces no events and defers a quarter of silence, and that
  every other chord produces its six events. \<^verbatim>\<open>write_output\<close> tests \<^verbatim>\<open>tonic == 0\<close>, while
  \<^verbatim>\<open>rest()\<close> is \<^verbatim>\<open>[-1, -1, -1]\<close>: the rest gets six events with note -1 and no deferred
  silence, and the major triad on root 0, a chord of the catalog, is the one that is silenced.
\<close>

theorem write_output_rest_chord:
  "write_output [first_message, last_message] [rest] =
     Inr [first_message,
          Message ''note_on'' 0 (- 1) 50 0,
          Message ''note_on'' 0 (- 1) 50 0,
          Message ''note_on'' 0 (- 1) 50 0,
          Message ''note_off'' 0 (- 1) 0 384,
          Message ''note_off'' 0 (- 1) 0 0,
          Message ''note_off'' 0 (- 1) 0 0,
          last_message]
   \<and> write_output [first_message, last_message] [major_triad 0] =
       Inr [first_message, last_message]
   \<and> write_output [first_message, last_message] [major_triad 0, major_triad 60] =
       Inr [first_message,
            Message ''note_on'' 0 60 50 384,
            Message ''note_on'' 0 64 50 0,
            Message ''note_on'' 0 67 50 0,
            Message ''note_off'' 0 60 0 384,
            Message ''note_off'' 0 64 0 0,
            Message ''note_off'' 0 67 0 0,
            last_message]"
  by (simp add: write_output_def py_index_def chord_step_def rest_def major_triad_def
      tonic_of_def mediant_of_def dominant_of_def quarter_time_def Let_def)

end
